theory Spec2Isabelle
  imports Main "HOL-Library.Word"
begin

unbundle bit_operations_syntax

section \<open>The echo program of main.c\<close>

text \<open>
  main.c is the application of the software UART: it sets the clocks up, initialises the
  UART library and echoes every received byte. The library itself (softserial.c,
  softserial.h), the configuration (config.h) and the vendor header (msp430.h) are not
  among the sources. The library is therefore a parameter of the model: a record of
  state transformers over an arbitrary state \<open>'s\<close>, which also stands for everything
  the interrupt handlers do between two calls. The macros of config.h are a record of
  parameters; the constants of msp430.h have the values of the vendor's header.

  On the MSP430 \<open>int\<close> and \<open>unsigned\<close> are 16 bits wide, \<open>uint8_t\<close> and
  \<open>unsigned char\<close> 8 bits.
\<close>

type_synonym u8 = "8 word"
type_synonym u16 = "16 word"

subsection \<open>The library interface\<close>

text \<open>
  Modelled from the spec: the outcome of \<open>init\<close> (\<open>fails with UnsupportedBaudRate if
  impossible at the current clock rate\<close>) and of \<open>transmit\<close> (\<open>a full/not-full
  result\<close>). The declarations of \<open>SoftSerial_init\<close> and \<open>SoftSerial_xmit\<close> are
  missing; main.c calls both as statements, so whatever they report is never looked at.
\<close>

datatype init_result = Configured | UnsupportedBaudRate

datatype xmit_result = Accepted | QueueFull

text \<open>
  \<open>SoftSerial_empty\<close> is used as a truth value (non-zero: the receive queue is empty),
  \<open>SoftSerial_read\<close> returns an \<open>int\<close> (\<open>-1\<close>: nothing buffered),
  \<open>SoftSerial_available\<close> an \<open>unsigned\<close> count, \<open>SoftSerial_read_nc\<close> a byte.
  The unchecked read has no defined result on an empty queue: \<open>None\<close>.
\<close>

record 's softserial =
  SoftSerial_init :: "'s \<Rightarrow> init_result \<times> 's"
  SoftSerial_xmit :: "u8 \<Rightarrow> 's \<Rightarrow> xmit_result \<times> 's"
  SoftSerial_empty :: "'s \<Rightarrow> u16 \<times> 's"
  SoftSerial_read :: "'s \<Rightarrow> u16 \<times> 's"
  SoftSerial_available :: "'s \<Rightarrow> u16 \<times> 's"
  SoftSerial_read_nc :: "'s \<Rightarrow> (u8 \<times> 's) option"

subsection \<open>The state of the program\<close>

text \<open>
  An event is a call the application makes, with the argument it passes or the value it
  gets back. The trace lists the events in the order they happen.
\<close>

datatype event =
    Init
  | EnableInterrupt
  | Xmit u8
  | Empty u16
  | Read u16
  | Available u16
  | ReadNc u8

text \<open>
  The world: the library's state, the registers main.c writes, the interrupt enable bit,
  and the trace. \<open>captures\<close> is what Timer_A will capture during calibration: one pair
  per capture event, holding the values the two reads of \<open>TACCR0\<close> return (lines 202
  and 204). When the list is empty no capture occurs any more.
\<close>

record 's world =
  dev :: 's
  WDTCTL :: u16
  P1DIR :: u8
  P1SEL :: u8
  BCSCTL3 :: u8
  BCSCTL1 :: u8
  DCOCTL :: u8
  TACCTL0 :: u16
  TACTL :: u16
  GIE :: bool
  captures :: "(u16 \<times> u16) list"
  trace :: "event list"

text \<open>
  A function either returns, or it stops: the execution is cut because the fuel of a
  loop that never ends by itself is used up (\<open>OutOfFuel\<close>), or it leaves defined
  behaviour by reading outside an object (\<open>OutOfBounds\<close>) or by an unchecked read from
  an empty queue (\<open>EmptyRead\<close>). The world at that point is kept.
\<close>

datatype reason = OutOfFuel | OutOfBounds | EmptyRead

datatype 's result = Ret "'s world" | Stop reason "'s world"

fun world_of :: "'s result \<Rightarrow> 's world" where
  "world_of (Ret w) = w"
| "world_of (Stop r w) = w"

fun returned :: "'s result \<Rightarrow> bool" where
  "returned (Ret w) = True"
| "returned (Stop r w) = False"

definition trace_of :: "'s result \<Rightarrow> event list" where
  "trace_of r = trace (world_of r)"

text \<open>Sequencing: the second statement runs only if the first one returned.\<close>

fun and_then :: "'s result \<Rightarrow> ('s world \<Rightarrow> 's result) \<Rightarrow> 's result" where
  "and_then (Ret w) f = f w"
| "and_then (Stop r w) f = Stop r w"

subsection \<open>Calls into the library\<close>

definition init :: "'s softserial \<Rightarrow> 's world \<Rightarrow> 's world" where
  "init L w = w\<lparr>dev := snd (SoftSerial_init L (dev w)), trace := trace w @ [Init]\<rparr>"

definition xmit :: "'s softserial \<Rightarrow> u8 \<Rightarrow> 's world \<Rightarrow> 's world" where
  "xmit L b w = w\<lparr>dev := snd (SoftSerial_xmit L b (dev w)), trace := trace w @ [Xmit b]\<rparr>"

definition empty :: "'s softserial \<Rightarrow> 's world \<Rightarrow> u16 \<times> 's world" where
  "empty L w = (let (e, d) = SoftSerial_empty L (dev w)
                in (e, w\<lparr>dev := d, trace := trace w @ [Empty e]\<rparr>))"

definition read :: "'s softserial \<Rightarrow> 's world \<Rightarrow> u16 \<times> 's world" where
  "read L w = (let (c, d) = SoftSerial_read L (dev w)
               in (c, w\<lparr>dev := d, trace := trace w @ [Read c]\<rparr>))"

definition available :: "'s softserial \<Rightarrow> 's world \<Rightarrow> u16 \<times> 's world" where
  "available L w = (let (n, d) = SoftSerial_available L (dev w)
                    in (n, w\<lparr>dev := d, trace := trace w @ [Available n]\<rparr>))"

definition read_nc :: "'s softserial \<Rightarrow> 's world \<Rightarrow> (u8 \<times> 's world) option" where
  "read_nc L w = (case SoftSerial_read_nc L (dev w) of
                    None \<Rightarrow> None
                  | Some (c, d) \<Rightarrow> Some (c, w\<lparr>dev := d, trace := trace w @ [ReadNc c]\<rparr>))"

definition enable_interrupt :: "'s world \<Rightarrow> 's world" where
  "enable_interrupt w = w\<lparr>GIE := True, trace := trace w @ [EnableInterrupt]\<rparr>"

subsection \<open>putchar, print\_hexb, print (lines 61-86)\<close>


definition hextbl :: "u8 list" where
  "hextbl = map of_char ''0123456789ABCDEF'' @ [0]"

definition print_hexb :: "'s softserial \<Rightarrow> u8 \<Rightarrow> 's world \<Rightarrow> 's world" where
  "print_hexb L c w =
     (let w1 = xmit L (hextbl ! unat (drop_bit 4 c)) w
      in xmit L (hextbl ! unat (c AND 0x0F)) w1)"

text \<open>
  \<open>print\<close> gets a pointer; the list is the memory from the pointer to the end of the
  object it points into. The body runs before the test: the byte at \<open>s\<close> is
  transmitted whatever it is, and the test reads the byte after it.
\<close>

fun print :: "'s softserial \<Rightarrow> u8 list \<Rightarrow> 's world \<Rightarrow> 's result" where
  "print L [] w = Stop OutOfBounds w"
| "print L (c # s) w =
     (let w1 = xmit L c w
      in case s of
           [] \<Rightarrow> Stop OutOfBounds w1
         | c' # s' \<Rightarrow> if c' \<noteq> 0 then print L s w1 else Ret w1)"

text \<open>A string literal: its characters and the terminating NUL.\<close>

definition cstr :: "string \<Rightarrow> u8 list" where
  "cstr s = map of_char s @ [0]"

subsection \<open>Constants of msp430.h and macros of config.h\<close>

definition WDTPW :: u16 where "WDTPW = 0x5A00"
definition WDTHOLD :: u16 where "WDTHOLD = 0x0080"
definition BIT0 :: u8 where "BIT0 = 0x01"
definition BIT4 :: u8 where "BIT4 = 0x10"
definition XCAP_0 :: u8 where "XCAP_0 = 0x00"
definition XCAP_3 :: u8 where "XCAP_3 = 0x0C"
definition DIVA_3 :: u8 where "DIVA_3 = 0x30"
definition CCIFG :: u16 where "CCIFG = 0x0001"
definition CAP :: u16 where "CAP = 0x0100"
definition CCIS_1 :: u16 where "CCIS_1 = 0x1000"
definition CM_1 :: u16 where "CM_1 = 0x4000"
definition TACLR :: u16 where "TACLR = 0x0004"
definition MC_2 :: u16 where "MC_2 = 0x0020"
definition TASSEL_2 :: u16 where "TASSEL_2 = 0x0200"

text \<open>
  config.h is missing: whether \<open>CALIBRATE_DCO\<close> is defined, and the value of
  \<open>F_CPU\<close>, are parameters. \<open>SHOW_DCO_SETTINGS\<close> is defined in main.c itself (line 56).
\<close>

record config =
  CALIBRATE_DCO :: bool
  F_CPU :: nat

subsection \<open>Set\_DCO (lines 190-223)\<close>

text \<open>Lines 208-211: the DCO is too fast.\<close>

definition slow_down :: "'s world \<Rightarrow> 's world" where
  "slow_down w =
     (let w1 = w\<lparr>DCOCTL := DCOCTL w - 1\<rparr>
      in if DCOCTL w1 = 0xFF
         then (if BCSCTL1 w1 AND 0x0f \<noteq> 0 then w1\<lparr>BCSCTL1 := BCSCTL1 w1 - 1\<rparr> else w1)
         else w1)"

text \<open>Lines 214-217: the DCO is too slow.\<close>

definition speed_up :: "'s world \<Rightarrow> 's world" where
  "speed_up w =
     (let w1 = w\<lparr>DCOCTL := DCOCTL w + 1\<rparr>
      in if DCOCTL w1 = 0x00
         then (if BCSCTL1 w1 AND 0x0f \<noteq> 0x0f then w1\<lparr>BCSCTL1 := BCSCTL1 w1 + 1\<rparr> else w1)
         else w1)"

text \<open>
  The loop of lines 199-219. The busy wait of line 200 ends when the timer captures; with
  no capture left the execution is still waiting there. The hardware sets \<open>CCIFG\<close>,
  line 201 clears it.
\<close>

function Set_DCO_loop :: "u16 \<Rightarrow> u16 \<Rightarrow> 's world \<Rightarrow> 's result" where
  "Set_DCO_loop Delta Oldcapture w =
     (case captures w of
        [] \<Rightarrow> Stop OutOfFuel w
      | (c1, c2) # cs \<Rightarrow>
          (let w1 = w\<lparr>captures := cs, TACCTL0 := TACCTL0 w OR CCIFG\<rparr>;
               w2 = w1\<lparr>TACCTL0 := TACCTL0 w1 AND NOT CCIFG\<rparr>;
               Compare = c1 - Oldcapture
           in if Delta = Compare then Ret w2
              else if Delta < Compare then Set_DCO_loop Delta c2 (slow_down w2)
              else Set_DCO_loop Delta c2 (speed_up w2)))"
  by pat_completeness auto
termination
  by (relation "measure (\<lambda>(Delta, Oldcapture, w). length (captures w))")
     (auto simp: slow_down_def speed_up_def Let_def)

definition Set_DCO :: "u16 \<Rightarrow> 's world \<Rightarrow> 's result" where
  "Set_DCO Delta w =
     (let w1 = w\<lparr>BCSCTL1 := BCSCTL1 w OR DIVA_3\<rparr>;
          w2 = w1\<lparr>TACCTL0 := CM_1 OR CCIS_1 OR CAP\<rparr>;
          w3 = w2\<lparr>TACTL := TASSEL_2 OR MC_2 OR TACLR\<rparr>
      in and_then (Set_DCO_loop Delta 0 w3)
           (\<lambda>w4. let w5 = w4\<lparr>TACCTL0 := 0\<rparr>;
                      w6 = w5\<lparr>TACTL := 0\<rparr>
                  in Ret (w6\<lparr>BCSCTL1 := BCSCTL1 w6 AND NOT DIVA_3\<rparr>)))"

subsection \<open>setup (lines 96-137)\<close>

definition crlf :: string where
  "crlf = [CHR 0x0D, CHR 0x0A]"

text \<open>\<open>__delay_cycles\<close> (line 113) only takes time. The function is named \<open>setup\<close> in main.c.\<close>

definition c_setup :: "config \<Rightarrow> 's softserial \<Rightarrow> 's world \<Rightarrow> 's result" where
  "c_setup cfg L w0 =
     (let w1 = w0\<lparr>WDTCTL := WDTPW + WDTHOLD\<rparr>;
          w2 = w1\<lparr>P1DIR := P1DIR w1 OR BIT0\<rparr>;
          w3 = w2\<lparr>P1SEL := P1SEL w2 OR BIT0\<rparr>;
          w4 = w3\<lparr>P1DIR := P1DIR w3 OR BIT4\<rparr>;
          w5 = w4\<lparr>P1SEL := P1SEL w4 OR BIT4\<rparr>;
          w6 = w5\<lparr>BCSCTL3 := (BCSCTL3 w5 AND NOT XCAP_3) OR XCAP_0\<rparr>
      in and_then
           (if CALIBRATE_DCO cfg then Set_DCO (of_nat (F_CPU cfg div 4096)) w6
            else Ret (w6\<lparr>DCOCTL := 0x00, BCSCTL1 := 0x8F, DCOCTL := 0x7E\<rparr>))
           (\<lambda>w7. let w8 = init L w7;
                      w9 = enable_interrupt w8
                  in and_then (print L (cstr (crlf @ ''>>Calibrated DCO values are:'' @ crlf)) w9)
                    (\<lambda>w10. and_then (print L (cstr ''BCSCTL1= 0x'') w10)
                    (\<lambda>w11. and_then (print L (cstr crlf) (print_hexb L (BCSCTL1 w11) w11))
                    (\<lambda>w12. and_then (print L (cstr ''DCOCTL = 0x'') w12)
                    (\<lambda>w13. print L (cstr crlf) (print_hexb L (DCOCTL w13) w13)))))))"

subsection \<open>loop (lines 147-172)\<close>

text \<open>
  The loops of \<open>loop\<close> never end by themselves, so they run on fuel: \<open>n\<close> bounds the
  number of iterations of the loop it is given to, and an execution whose fuel is used
  up stops where it is. Every finite part of an execution is reached with enough fuel.

  The compiled variant (\<open>#if 1\<close>, lines 155-160). \<open>drain\<close> is the inner while loop.
\<close>

fun drain :: "'s softserial \<Rightarrow> nat \<Rightarrow> 's world \<Rightarrow> 's result" where
  "drain L 0 w = Stop OutOfFuel w"
| "drain L (Suc n) w =
     (let (c, w1) = read L w
      in if c \<noteq> - 1 then drain L n (xmit L (ucast c) w1) else Ret w1)"

fun loop :: "'s softserial \<Rightarrow> nat \<Rightarrow> 's world \<Rightarrow> 's result" where
  "loop L 0 w = Stop OutOfFuel w"
| "loop L (Suc n) w =
     (let (e, w1) = empty L w
      in if e = 0 then and_then (drain L n w1) (\<lambda>w2. loop L n w2)
         else loop L n w1)"

text \<open>
  The other variant (\<open>#else\<close>, lines 163-169), which is not compiled. \<open>do_read_nc\<close> is
  the do-while loop: it ends by itself, after at most 65536 rounds.
\<close>

function do_read_nc :: "'s softserial \<Rightarrow> u16 \<Rightarrow> 's world \<Rightarrow> 's result" where
  "do_read_nc L cnt w =
     (case read_nc L w of
        None \<Rightarrow> Stop EmptyRead w
      | Some (c, w1) \<Rightarrow>
          (let w2 = xmit L c w1;
               cnt' = cnt - 1
           in if cnt' \<noteq> 0 then do_read_nc L cnt' w2 else Ret w2))"
  by pat_completeness auto
termination
  apply (relation "measure (\<lambda>(L, cnt, w). unat (cnt - 1))")
   apply simp
  subgoal for L cnt
    using unat_minus_one [of "cnt - 1"] unat_gt_0 [of "cnt - 1"] by simp
  done

fun loop_nc :: "'s softserial \<Rightarrow> nat \<Rightarrow> 's world \<Rightarrow> 's result" where
  "loop_nc L 0 w = Stop OutOfFuel w"
| "loop_nc L (Suc n) w =
     (let (cnt, w1) = available L w
      in if cnt \<noteq> 0 then and_then (do_read_nc L cnt w1) (\<lambda>w2. loop_nc L n w2)
         else loop_nc L n w1)"

subsection \<open>main (lines 179-186)\<close>

fun main_while :: "'s softserial \<Rightarrow> nat \<Rightarrow> 's world \<Rightarrow> 's result" where
  "main_while L 0 w = Stop OutOfFuel w"
| "main_while L (Suc n) w = and_then (loop L (Suc n) w) (\<lambda>w1. main_while L n w1)"

definition main :: "config \<Rightarrow> 's softserial \<Rightarrow> nat \<Rightarrow> 's world \<Rightarrow> 's result" where
  "main cfg L n w = and_then (c_setup cfg L w) (\<lambda>w1. main_while L n w1)"

section \<open>Definitions used to state the properties\<close>

text \<open>
  Reading hexadecimal back: the value of one digit (\<open>0\<close> to \<open>9\<close>, \<open>A\<close> to \<open>F\<close>)
  and of a pair of digits, high nibble first.
\<close>

definition hexval :: "u8 \<Rightarrow> u8 option" where
  "hexval d =
     (if 0x30 \<le> d \<and> d \<le> 0x39 then Some (d - 0x30)
      else if 0x41 \<le> d \<and> d \<le> 0x46 then Some (d - 0x41 + 10)
      else None)"

definition parse_hexb :: "u8 \<Rightarrow> u8 \<Rightarrow> u8 option" where
  "parse_hexb hi lo =
     (case hexval hi of
        None \<Rightarrow> None
      | Some h \<Rightarrow> (case hexval lo of None \<Rightarrow> None | Some l \<Rightarrow> Some (16 * h + l)))"

text \<open>The bytes passed to \<open>SoftSerial_xmit\<close>, in order.\<close>

definition xmitted :: "event list \<Rightarrow> u8 list" where
  "xmitted t = concat (map (\<lambda>e. case e of Xmit b \<Rightarrow> [b] | _ \<Rightarrow> []) t)"

text \<open>The values \<open>SoftSerial_read\<close> returned other than the sentinel \<open>-1\<close>, in order.\<close>

definition delivered :: "event list \<Rightarrow> u16 list" where
  "delivered t =
     concat (map (\<lambda>e. case e of Read c \<Rightarrow> (if c = - 1 then [] else [c]) | _ \<Rightarrow> []) t)"

definition echoed :: "event list \<Rightarrow> bool" where
  "echoed t \<longleftrightarrow> xmitted t = map ucast (delivered t)"

text \<open>
  Which call of the echo loop may directly follow which: a read follows a poll that
  reported data (\<open>SoftSerial_empty\<close> returned 0) or a transmit; after a read that
  returned a byte comes the transmit of that byte, after one that returned the sentinel
  comes the next poll.
\<close>

fun echo_next :: "event \<Rightarrow> event \<Rightarrow> bool" where
  "echo_next (Empty e) (Read c) = (e = 0)"
| "echo_next (Empty e) (Empty e') = (e \<noteq> 0)"
| "echo_next (Read c) (Xmit b) = (c \<noteq> - 1 \<and> b = ucast c)"
| "echo_next (Read c) (Empty e) = (c = - 1)"
| "echo_next (Xmit b) (Read c) = True"
| "echo_next _ _ = False"

fun is_poll :: "event \<Rightarrow> bool" where
  "is_poll (Empty e) = True"
| "is_poll _ = False"

definition polls_first :: "event list \<Rightarrow> bool" where
  "polls_first t = (case t of [] \<Rightarrow> True | e # _ \<Rightarrow> is_poll e)"

definition echo_protocol :: "event list \<Rightarrow> bool" where
  "echo_protocol t \<longleftrightarrow> successively echo_next t \<and> polls_first t"

definition may_read :: "event list \<Rightarrow> bool" where
  "may_read t \<longleftrightarrow>
     t \<noteq> [] \<and> (case last t of Empty e \<Rightarrow> e = 0 | Xmit b \<Rightarrow> True | _ \<Rightarrow> False)"

definition may_poll :: "event list \<Rightarrow> bool" where
  "may_poll t \<longleftrightarrow>
     t = [] \<or> (case last t of Empty e \<Rightarrow> e \<noteq> 0 | Read c \<Rightarrow> c = - 1 | _ \<Rightarrow> False)"

text \<open>
  What the unchecked read relies on, for a library whose state holds \<open>buffered s\<close>
  bytes ready to be read: \<open>SoftSerial_available\<close> reports no more than are buffered
  when it returns, the unchecked read is undefined exactly on an empty queue and takes
  at most one byte out, and transmitting takes none out. Bytes may arrive at any time.
\<close>

definition rx_contract :: "'s softserial \<Rightarrow> ('s \<Rightarrow> nat) \<Rightarrow> bool" where
  "rx_contract L buffered \<longleftrightarrow>
     (\<forall>s. unat (fst (SoftSerial_available L s)) \<le> buffered (snd (SoftSerial_available L s))) \<and>
     (\<forall>s. SoftSerial_read_nc L s = None \<longleftrightarrow> buffered s = 0) \<and>
     (\<forall>s c s'. SoftSerial_read_nc L s = Some (c, s') \<longrightarrow> buffered s - 1 \<le> buffered s') \<and>
     (\<forall>b s. buffered s \<le> buffered (snd (SoftSerial_xmit L b s)))"

text \<open>
  \<open>counted k t\<close>: in \<open>t\<close> every count \<open>c\<close> that \<open>SoftSerial_available\<close> returns is
  followed by exactly \<open>c\<close> unchecked reads, each passed on to \<open>SoftSerial_xmit\<close> at
  once, before the next count is taken; \<open>k\<close> reads are still due at the start.
\<close>

fun counted :: "nat \<Rightarrow> event list \<Rightarrow> bool" where
  "counted k [] = (k = 0)"
| "counted k (Available c # t) = (k = 0 \<and> counted (unat c) t)"
| "counted k (ReadNc b # Xmit b' # t) = (0 < k \<and> b' = b \<and> counted (k - 1) t)"
| "counted k _ = False"

definition forwarded :: "u8 list \<Rightarrow> event list" where
  "forwarded bs = concat (map (\<lambda>b. [ReadNc b, Xmit b]) bs)"

text \<open>
  The RSEL field, the low nibble of \<open>BCSCTL1\<close>, as a number; and the values \<open>Compare\<close>
  takes in \<open>Set_DCO\<close>, one per capture: the first read of \<open>TACCR0\<close> minus the value
  the second read returned at the capture before (0 at the start).
\<close>

definition RSEL :: "u8 \<Rightarrow> nat" where
  "RSEL x = unat (x AND 0x0F)"

fun differences :: "u16 \<Rightarrow> (u16 \<times> u16) list \<Rightarrow> u16 list" where
  "differences old [] = []"
| "differences old ((c1, c2) # cs) = (c1 - old) # differences c2 cs"


text \<open>
  \<open>setup\<close> does not get past the clock calibration: calibration is compiled in, and no
  capture the timer will ever make gives a difference equal to \<open>F_CPU/4096\<close>.
\<close>

definition stuck :: "config \<Rightarrow> 's world \<Rightarrow> bool" where
  "stuck cfg w \<longleftrightarrow>
     CALIBRATE_DCO cfg \<and> of_nat (F_CPU cfg div 4096) \<notin> set (differences 0 (captures w))"

text \<open>
  A library that differs from \<open>L\<close> only in what \<open>SoftSerial_init\<close>, or
  \<open>SoftSerial_xmit\<close>, reports to its caller.
\<close>

definition with_init_result :: "('s \<Rightarrow> init_result) \<Rightarrow> 's softserial \<Rightarrow> 's softserial" where
  "with_init_result r L = L\<lparr>SoftSerial_init := \<lambda>s. (r s, snd (SoftSerial_init L s))\<rparr>"


text \<open>The calls made once \<open>setup\<close> is past its first two: all but those two.\<close>

fun after_setup :: "event \<Rightarrow> bool" where
  "after_setup Init = False"
| "after_setup EnableInterrupt = False"
| "after_setup _ = True"

definition extends :: "'s world \<Rightarrow> 's result \<Rightarrow> bool" where
  "extends w r \<longleftrightarrow> (\<exists>t. trace_of r = trace w @ t \<and> list_all after_setup t)"

text \<open>A run of transmits; and the two halves of \<open>setup\<close>, lines 98-127 and 129-136.\<close>

definition xmits :: "'s softserial \<Rightarrow> u8 list \<Rightarrow> 's world \<Rightarrow> 's world" where
  "xmits L bs w = foldl (\<lambda>w b. xmit L b w) w bs"

definition clock_part :: "config \<Rightarrow> 's world \<Rightarrow> 's result" where
  "clock_part cfg w0 =
     (let w1 = w0\<lparr>WDTCTL := WDTPW + WDTHOLD\<rparr>;
          w2 = w1\<lparr>P1DIR := P1DIR w1 OR BIT0\<rparr>;
          w3 = w2\<lparr>P1SEL := P1SEL w2 OR BIT0\<rparr>;
          w4 = w3\<lparr>P1DIR := P1DIR w3 OR BIT4\<rparr>;
          w5 = w4\<lparr>P1SEL := P1SEL w4 OR BIT4\<rparr>;
          w6 = w5\<lparr>BCSCTL3 := (BCSCTL3 w5 AND NOT XCAP_3) OR XCAP_0\<rparr>
      in if CALIBRATE_DCO cfg then Set_DCO (of_nat (F_CPU cfg div 4096)) w6
         else Ret (w6\<lparr>DCOCTL := 0x00, BCSCTL1 := 0x8F, DCOCTL := 0x7E\<rparr>))"

definition serial_part :: "'s softserial \<Rightarrow> 's world \<Rightarrow> 's result" where
  "serial_part L w7 =
     (let w8 = init L w7;
          w9 = enable_interrupt w8
      in and_then (print L (cstr (crlf @ ''>>Calibrated DCO values are:'' @ crlf)) w9)
        (\<lambda>w10. and_then (print L (cstr ''BCSCTL1= 0x'') w10)
        (\<lambda>w11. and_then (print L (cstr crlf) (print_hexb L (BCSCTL1 w11) w11))
        (\<lambda>w12. and_then (print L (cstr ''DCOCTL = 0x'') w12)
        (\<lambda>w13. print L (cstr crlf) (print_hexb L (DCOCTL w13) w13))))))"

subsection \<open>A library and a machine to run the program on\<close>

text \<open>
  Modelled from the spec: a library behind the interface, for the concrete runs below.
  The receive queue is a bounded FIFO; a byte that completes while the queue is full is
  dropped. \<open>incoming\<close> lists what the receive handler delivers: its head arrives before
  the next call into the library completes. \<open>init\<close> fails with
  \<open>UnsupportedBaudRate\<close> when the baud rate cannot be configured; \<open>read\<close> returns the
  oldest buffered byte or the sentinel.
\<close>

record uart =
  rxq :: "u8 list"
  rx_capacity :: nat
  incoming :: "u8 list list"
  sent :: "u8 list"
  baud_ok :: bool

definition deliver :: "uart \<Rightarrow> uart" where
  "deliver s =
     (case incoming s of
        [] \<Rightarrow> s
      | a # as \<Rightarrow>
          s\<lparr>rxq := take (max (rx_capacity s) (length (rxq s))) (rxq s @ a), incoming := as\<rparr>)"

definition uart_lib :: "uart softserial" where
  "uart_lib =
     \<lparr>SoftSerial_init =
        (\<lambda>s. (if baud_ok s then Configured else UnsupportedBaudRate, s\<lparr>rxq := []\<rparr>)),
      SoftSerial_xmit = (\<lambda>b s. (Accepted, (deliver s)\<lparr>sent := sent s @ [b]\<rparr>)),
      SoftSerial_empty = (\<lambda>s. let s' = deliver s in (if rxq s' = [] then 1 else 0, s')),
      SoftSerial_read = (\<lambda>s. let s' = deliver s in
         (case rxq s' of [] \<Rightarrow> (- 1, s') | b # q \<Rightarrow> (ucast b, s'\<lparr>rxq := q\<rparr>))),
      SoftSerial_available = (\<lambda>s. let s' = deliver s in (of_nat (length (rxq s')), s')),
      SoftSerial_read_nc = (\<lambda>s. let s' = deliver s in
         (case rxq s' of [] \<Rightarrow> None | b # q \<Rightarrow> Some (b, s'\<lparr>rxq := q\<rparr>)))\<rparr>"

definition uart0 :: "u8 list list \<Rightarrow> uart" where
  "uart0 inc = \<lparr>rxq = [], rx_capacity = 16, incoming = inc, sent = [], baud_ok = True\<rparr>"

text \<open>The registers after a power-up clear, as the family's user guide gives them.\<close>

definition power_up :: "'s \<Rightarrow> (u16 \<times> u16) list \<Rightarrow> 's world" where
  "power_up d caps =
     \<lparr>dev = d, WDTCTL = 0x6900, P1DIR = 0, P1SEL = 0, BCSCTL3 = 0x05, BCSCTL1 = 0x87,
      DCOCTL = 0x60, TACCTL0 = 0, TACTL = 0, GIE = False, captures = caps, trace = []\<rparr>"

text \<open>Two configurations, and a library state in which the baud rate cannot be set up.\<close>

definition no_calibration :: config where
  "no_calibration = \<lparr>CALIBRATE_DCO = False, F_CPU = 16000000\<rparr>"

definition calibration :: config where
  "calibration = \<lparr>CALIBRATE_DCO = True, F_CPU = 16000000\<rparr>"

definition bad_baud :: uart where
  "bad_baud = (uart0 [])\<lparr>baud_ok := False\<rparr>"

section \<open>Basic facts\<close>

declare do_read_nc.simps [simp del] Set_DCO_loop.simps [simp del]

lemma trace_xmit: "trace (xmit L b w) = trace w @ [Xmit b]"
  by (simp add: xmit_def)

lemma trace_read: "trace (snd (read L w)) = trace w @ [Read (fst (read L w))]"
  by (simp add: read_def split: prod.split)

lemma trace_empty: "trace (snd (empty L w)) = trace w @ [Empty (fst (empty L w))]"
  by (simp add: empty_def split: prod.split)

lemma trace_available:
  "trace (snd (available L w)) = trace w @ [Available (fst (available L w))]"
  by (simp add: available_def split: prod.split)

lemmas run_simps = trace_of_def power_up_def uart0_def uart_lib_def deliver_def empty_def
  read_def xmit_def Let_def

section \<open>print\_hexb\<close>

lemma nibble_cases:
  "(i::nat) < 16 \<Longrightarrow> i \<in> set [0, 1, 2, 3, 4, 5, 6, 7, 8, 9, 10, 11, 12, 13, 14, 15]"
  by simp arith

lemma hextbl_nth: "i < 16 \<Longrightarrow> hextbl ! i = map of_char ''0123456789ABCDEF'' ! i"
  using nibble_cases [of i] by (auto simp: hextbl_def)

lemma hexval_hextbl: "i < 16 \<Longrightarrow> hexval (hextbl ! i) = Some (of_nat i)"
  using nibble_cases [of i] by (auto simp: hextbl_def hexval_def)

lemma high_nibble_less: "unat (drop_bit 4 (c::u8)) < 16"
proof -
  have "unat c < 2 ^ 8"
    using unsigned_less [of c, where 'a = nat] by simp
  then show ?thesis
    by (simp add: drop_bit_eq_div unat_div)
qed

lemma low_nibble_less: "unat ((c::u8) AND 0x0F) < 16"
proof -
  have "c AND 0x0F = take_bit 4 c"
    by (simp add: take_bit_eq_mask mask_eq_exp_minus_1)
  then have "unat (c AND 0x0F) = take_bit 4 (unat c)"
    by (simp add: unsigned_take_bit_eq)
  also have "\<dots> < 2 ^ 4"
    by (rule take_bit_nat_less_exp)
  finally show ?thesis by simp
qed

lemma nibbles_of_byte: "16 * drop_bit 4 c + (c AND 0x0F) = (c::u8)"
  using bits_ident [of 4 c]
  by (simp add: push_bit_eq_mult take_bit_eq_mask mask_eq_exp_minus_1 mult.commute)

text \<open>
  C9. For every byte \<open>c\<close>, \<open>print_hexb\<close> passes exactly two bytes to
  \<open>SoftSerial_xmit\<close>: the character of \<open>0123456789ABCDEF\<close> at index \<open>c >> 4\<close>, then
  the one at index \<open>c & 0x0F\<close>; reading the two digits back as a hexadecimal number
  gives \<open>c\<close> again. Both indices are below 16, inside the table.
\<close>

theorem print_hexb_roundtrip:
  "\<exists>hi lo. trace (print_hexb L c w) = trace w @ [Xmit hi, Xmit lo]
      \<and> unat (drop_bit 4 c) < 16 \<and> unat (c AND 0x0F) < 16
      \<and> hi = of_char (''0123456789ABCDEF'' ! unat (drop_bit 4 c))
      \<and> lo = of_char (''0123456789ABCDEF'' ! unat (c AND 0x0F))
      \<and> parse_hexb hi lo = Some c"
proof -
  let ?h = "unat (drop_bit 4 c)" and ?l = "unat (c AND 0x0F)"
  have h: "?h < 16" and l: "?l < 16"
    by (rule high_nibble_less, rule low_nibble_less)
  have tr: "trace (print_hexb L c w) = trace w @ [Xmit (hextbl ! ?h), Xmit (hextbl ! ?l)]"
    by (simp add: print_hexb_def trace_xmit)
  have dig: "hextbl ! ?h = of_char (''0123456789ABCDEF'' ! ?h)"
            "hextbl ! ?l = of_char (''0123456789ABCDEF'' ! ?l)"
    using h l by (simp_all only: hextbl_nth nth_map length_map list.size)
  have "parse_hexb (hextbl ! ?h) (hextbl ! ?l) = Some (16 * of_nat ?h + of_nat ?l)"
    using h l by (simp add: parse_hexb_def hexval_hextbl)
  also have "16 * of_nat ?h + of_nat ?l = c"
    using nibbles_of_byte [of c] by simp
  finally have "parse_hexb (hextbl ! ?h) (hextbl ! ?l) = Some c" .
  with tr dig h l show ?thesis by simp
qed

lemma print_hexb_run:
  "parse_hexb 0x38 0x46 = Some 0x8F \<and>
   trace (print_hexb uart_lib 0x8F (power_up (uart0 []) [])) = [Xmit 0x38, Xmit 0x46]"
  using print_hexb_roundtrip [of uart_lib "0x8F" "power_up (uart0 []) []"]
  by (simp add: power_up_def drop_bit_eq_div)

section \<open>print\<close>

text \<open>
  C8, as the code has it. \<open>print\<close> transmits the byte it is given a pointer to, whatever
  it is, and then every following byte up to, and without, the first NUL after it. So a
  string of at least one character is transmitted exactly, character by character, in
  order, and \<open>print\<close> returns. (Here \<open>c # cs\<close> with \<open>c \<noteq> 0\<close> is such a string,
  \<open>rest\<close> whatever follows its terminator.)
\<close>

theorem print_first_then_rest:
  "0 \<notin> set cs \<Longrightarrow>
     returned (print L (c # cs @ 0 # rest) w) \<and>
     trace_of (print L (c # cs @ 0 # rest) w) = trace w @ map Xmit (c # cs)"
proof (induction cs arbitrary: c w)
  case Nil
  then show ?case by (simp add: trace_of_def trace_xmit)
next
  case (Cons d ds)
  then have "d \<noteq> 0" and "0 \<notin> set ds" by auto
  then show ?case
    using Cons.IH [of d "xmit L c w"] by (simp add: trace_xmit)
qed

theorem print_literal_run:
  "0 \<notin> set [0x69 :: u8] \<and>
   returned (print uart_lib (cstr ''Hi'') (power_up (uart0 []) [])) \<and>
   trace_of (print uart_lib (cstr ''Hi'') (power_up (uart0 []) [])) = [Xmit 0x48, Xmit 0x69]"
  using print_first_then_rest [where cs = "[0x69]" and L = uart_lib and c = "0x48"
      and rest = "[]" and w = "power_up (uart0 []) []"]
  by (simp add: cstr_def power_up_def)

text \<open>
  For the empty string more than the single \<open>0x00\<close> byte can go out: the empty
  string at the start of the array \<open>{0, 'A', 0}\<close> makes \<open>print\<close> transmit two bytes,
  since the loop test reads the byte after the terminator.
\<close>

theorem print_empty_string_two_bytes:
  "trace_of (print uart_lib [0, 0x41, 0] (power_up (uart0 []) [])) = [Xmit 0, Xmit 0x41]"
  by (simp add: trace_of_def trace_xmit power_up_def)

text \<open>When the terminator is the last byte of its object, that read is outside the object.\<close>

lemma print_empty_string_out_of_bounds:
  "print L [0] w = Stop OutOfBounds (xmit L 0 w)"
  by simp

section \<open>The echo loop\<close>

lemma xmitted_append: "xmitted (s @ t) = xmitted s @ xmitted t"
  by (simp add: xmitted_def)

lemma delivered_append: "delivered (s @ t) = delivered s @ delivered t"
  by (simp add: delivered_def)

lemma drain_echoed: "echoed (trace w) \<Longrightarrow> echoed (trace_of (drain L n w))"
proof (induction n arbitrary: w)
  case 0
  then show ?case by (simp add: trace_of_def)
next
  case (Suc n)
  obtain c w1 where r: "read L w = (c, w1)" by (cases "read L w")
  then have t1: "trace w1 = trace w @ [Read c]" using trace_read [of L w] by simp
  show ?case
  proof (cases "c = - 1")
    case True
    with r t1 Suc.prems show ?thesis
      by (simp add: trace_of_def echoed_def xmitted_append delivered_append xmitted_def
          delivered_def)
  next
    case False
    have "echoed (trace (xmit L (ucast c) w1))"
      using Suc.prems False t1
      by (simp add: trace_xmit echoed_def xmitted_append delivered_append xmitted_def
          delivered_def)
    then show ?thesis using Suc.IH r False by simp
  qed
qed

lemma loop_echoed: "echoed (trace w) \<Longrightarrow> echoed (trace_of (loop L n w))"
proof (induction n arbitrary: w)
  case 0
  then show ?case by (simp add: trace_of_def)
next
  case (Suc n)
  obtain e w1 where r: "empty L w = (e, w1)" by (cases "empty L w")
  then have t1: "trace w1 = trace w @ [Empty e]" using trace_empty [of L w] by simp
  then have e1: "echoed (trace w1)" using Suc.prems
    by (simp add: echoed_def xmitted_append delivered_append xmitted_def delivered_def)
  show ?case
  proof (cases "e = 0")
    case True
    have d: "echoed (trace_of (drain L n w1))" using e1 by (rule drain_echoed)
    show ?thesis
    proof (cases "drain L n w1")
      case (Ret w2)
      with d have "echoed (trace w2)" by (simp add: trace_of_def)
      then show ?thesis using Suc.IH r True Ret by simp
    next
      case (Stop x w2)
      with d show ?thesis using r True by (simp add: trace_of_def)
    qed
  next
    case False
    then show ?thesis using Suc.IH e1 r by simp
  qed
qed

text \<open>
  C1. Whatever the library does and however long the loop runs: the bytes \<open>loop\<close> has
  passed to \<open>SoftSerial_xmit\<close> are the values \<open>SoftSerial_read\<close> has returned other
  than \<open>-1\<close>, each cut to 8 bits, in the same order, none left out and none twice.
  (The fuel cuts an execution between two rounds of a loop, where every byte read has
  been passed on.)
\<close>

theorem loop_echoes:
  "xmitted (trace_of (loop L n (w\<lparr>trace := []\<rparr>))) =
     map ucast (delivered (trace_of (loop L n (w\<lparr>trace := []\<rparr>))))"
  using loop_echoed [of "w\<lparr>trace := []\<rparr>" L n]
  by (simp add: echoed_def xmitted_def delivered_def)

theorem loop_echoes_run:
  "delivered (trace_of (loop uart_lib (Suc (Suc (Suc (Suc (Suc 0)))))
      (power_up (uart0 [[0x61, 0x62], [], [0xFF], []]) []))) = [0x61, 0x62, 0xFF] \<and>
   xmitted (trace_of (loop uart_lib (Suc (Suc (Suc (Suc (Suc 0)))))
      (power_up (uart0 [[0x61, 0x62], [], [0xFF], []]) []))) = [0x61, 0x62, 0xFF]"
  using loop_echoes [of uart_lib "Suc (Suc (Suc (Suc (Suc 0))))"
      "power_up (uart0 [[0x61, 0x62], [], [0xFF], []]) []"]
  by (simp add: run_simps delivered_def xmitted_def)

lemma polls_first_snoc:
  "polls_first (t @ [e]) = (if t = [] then is_poll e else polls_first t)"
  by (cases t) (simp_all add: polls_first_def)

lemma polls_first_single: "polls_first [e] = is_poll e"
  by (simp add: polls_first_def)

lemma protocol_read:
  "echo_protocol t \<Longrightarrow> may_read t \<Longrightarrow> echo_protocol (t @ [Read c])"
  by (cases "last t")
     (auto simp: echo_protocol_def may_read_def successively_append_iff polls_first_snoc)

lemma protocol_xmit:
  "echo_protocol t \<Longrightarrow> t \<noteq> [] \<Longrightarrow> last t = Read c \<Longrightarrow> c \<noteq> - 1 \<Longrightarrow>
     echo_protocol (t @ [Xmit (ucast c)])"
  by (auto simp: echo_protocol_def successively_append_iff polls_first_snoc)

lemma protocol_empty:
  "echo_protocol t \<Longrightarrow> may_poll t \<Longrightarrow> echo_protocol (t @ [Empty e])"
  by (cases "last t")
     (auto simp: echo_protocol_def may_poll_def successively_append_iff polls_first_snoc
        polls_first_single)

lemma drain_protocol:
  "echo_protocol (trace w) \<Longrightarrow> may_read (trace w) \<Longrightarrow>
     echo_protocol (trace_of (drain L n w)) \<and>
     (returned (drain L n w) \<longrightarrow> may_poll (trace_of (drain L n w)))"
proof (induction n arbitrary: w)
  case 0
  then show ?case by (simp add: trace_of_def)
next
  case (Suc n)
  obtain c w1 where r: "read L w = (c, w1)" by (cases "read L w")
  then have t1: "trace w1 = trace w @ [Read c]" using trace_read [of L w] by simp
  have p1: "echo_protocol (trace w1)"
    using Suc.prems t1 by (simp add: protocol_read)
  show ?case
  proof (cases "c = - 1")
    case True
    with r t1 p1 show ?thesis
      by (simp add: trace_of_def may_poll_def)
  next
    case False
    let ?w2 = "xmit L (ucast c) w1"
    have "echo_protocol (trace ?w2)"
      using p1 False t1 protocol_xmit [of "trace w1" c] by (simp add: trace_xmit)
    moreover have "may_read (trace ?w2)"
      by (simp add: trace_xmit may_read_def)
    ultimately show ?thesis
      using Suc.IH [of ?w2] r False by simp
  qed
qed

lemma loop_protocol:
  "echo_protocol (trace w) \<Longrightarrow> may_poll (trace w) \<Longrightarrow> echo_protocol (trace_of (loop L n w))"
proof (induction n arbitrary: w)
  case 0
  then show ?case by (simp add: trace_of_def)
next
  case (Suc n)
  obtain e w1 where r: "empty L w = (e, w1)" by (cases "empty L w")
  then have t1: "trace w1 = trace w @ [Empty e]" using trace_empty [of L w] by simp
  have p1: "echo_protocol (trace w1)"
    using Suc.prems t1 by (simp add: protocol_empty)
  show ?case
  proof (cases "e = 0")
    case True
    have "may_read (trace w1)" using t1 True by (simp add: may_read_def)
    then have d: "echo_protocol (trace_of (drain L n w1))"
      and d': "returned (drain L n w1) \<longrightarrow> may_poll (trace_of (drain L n w1))"
      using drain_protocol [OF p1] by simp_all
    show ?thesis
    proof (cases "drain L n w1")
      case (Ret w2)
      with d d' have "echo_protocol (trace w2)" "may_poll (trace w2)"
        by (simp_all add: trace_of_def)
      then show ?thesis using Suc.IH [of w2] r True Ret by simp
    next
      case (Stop x w2)
      with d show ?thesis using r True by (simp add: trace_of_def)
    qed
  next
    case False
    have "may_poll (trace w1)" using t1 False by (simp add: may_poll_def)
    then show ?thesis using Suc.IH [of w1] p1 r False by simp
  qed
qed

text \<open>
  C2. In every execution of \<open>loop\<close> the first call is a poll of \<open>SoftSerial_empty\<close>,
  and the calls follow one another as \<open>echo_next\<close> allows: \<open>SoftSerial_read\<close> is
  called only right after a poll that reported data or right after a transmit; a read
  that returns a byte is followed by the transmit of that byte and the next read; a read
  that returns \<open>-1\<close> is followed by the next poll, never by a transmit.
\<close>

theorem loop_reads_after_poll:
  "successively echo_next (trace_of (loop L n (w\<lparr>trace := []\<rparr>))) \<and>
   polls_first (trace_of (loop L n (w\<lparr>trace := []\<rparr>)))"
  using loop_protocol [of "w\<lparr>trace := []\<rparr>" L n]
  by (simp add: echo_protocol_def may_poll_def polls_first_def)


theorem loop_reads_after_poll_run:
  "trace_of (loop uart_lib (Suc (Suc (Suc (Suc 0)))) (power_up (uart0 [[], [0x61]]) [])) =
     [Empty 1, Empty 0, Read 0x61, Xmit 0x61, Read (- 1), Empty 1, Empty 1] \<and>
   successively echo_next [Empty 1, Empty 0, Read 0x61, Xmit 0x61, Read (- 1), Empty 1, Empty 1]"
  using loop_reads_after_poll [of uart_lib "Suc (Suc (Suc (Suc 0)))"
      "power_up (uart0 [[], [0x61]]) []"]
  by (simp add: run_simps)

section \<open>The echo loop that reads without checking\<close>

lemma contract_available:
  "rx_contract L buffered \<Longrightarrow>
     unat (fst (SoftSerial_available L s)) \<le> buffered (snd (SoftSerial_available L s))"
  by (simp add: rx_contract_def)

lemma contract_none:
  "rx_contract L buffered \<Longrightarrow> SoftSerial_read_nc L s = None \<longleftrightarrow> buffered s = 0"
  by (simp add: rx_contract_def)

lemma contract_some:
  "rx_contract L buffered \<Longrightarrow> SoftSerial_read_nc L s = Some (c, s') \<Longrightarrow>
     buffered s - 1 \<le> buffered s'"
  by (simp add: rx_contract_def)

lemma contract_xmit:
  "rx_contract L buffered \<Longrightarrow> buffered s \<le> buffered (snd (SoftSerial_xmit L b s))"
  by (simp add: rx_contract_def)

lemma forwarded_simps:
  "forwarded [] = []"
  "forwarded (b # bs) = ReadNc b # Xmit b # forwarded bs"
  by (simp_all add: forwarded_def)

lemma counted_forwarded:
  "counted k (forwarded bs @ t) \<longleftrightarrow> length bs \<le> k \<and> counted (k - length bs) t"
proof (induction bs arbitrary: k)
  case Nil
  show ?case by (simp add: forwarded_simps)
next
  case (Cons b bs)
  show ?case by (cases k) (simp_all add: forwarded_simps Cons.IH)
qed

lemma do_read_nc_step:
  "read_nc L w = Some (c, w1) \<Longrightarrow>
     do_read_nc L cnt w =
       (if cnt - 1 \<noteq> 0 then do_read_nc L (cnt - 1) (xmit L c w1) else Ret (xmit L c w1))"
  by (subst do_read_nc.simps) (simp add: Let_def)

lemma do_read_nc_counted:
  assumes L: "rx_contract L buffered"
  shows "cnt \<noteq> 0 \<Longrightarrow> unat cnt \<le> buffered (dev w) \<Longrightarrow>
     \<exists>w' bs. do_read_nc L cnt w = Ret w' \<and> length bs = unat cnt \<and>
        trace w' = trace w @ forwarded bs"
proof (induction k \<equiv> "unat cnt" arbitrary: cnt w)
  case 0
  then show ?case by (simp add: unat_eq_0)
next
  case (Suc k)
  from Suc.prems Suc.hyps(2) have "buffered (dev w) \<noteq> 0" by simp
  then obtain c d where rd: "SoftSerial_read_nc L (dev w) = Some (c, d)"
    using contract_none [OF L, of "dev w"] by (cases "SoftSerial_read_nc L (dev w)") auto
  have d: "buffered (dev w) - 1 \<le> buffered d"
    using L rd by (rule contract_some)
  define w1 where "w1 = w\<lparr>dev := d, trace := trace w @ [ReadNc c]\<rparr>"
  define w2 where "w2 = xmit L c w1"
  have r: "read_nc L w = Some (c, w1)" using rd by (simp add: read_nc_def w1_def)
  have "buffered d \<le> buffered (dev w2)"
    using contract_xmit [OF L, of d c] by (simp add: xmit_def w2_def w1_def)
  with d have b2: "buffered (dev w) - 1 \<le> buffered (dev w2)"
    by (rule le_trans)
  have t2: "trace w2 = trace w @ forwarded [c]"
    by (simp add: trace_xmit forwarded_def w2_def w1_def)
  have u: "unat (cnt - 1) = k"
    using Suc.hyps(2) Suc.prems(1) by (simp add: unat_minus_one)
  have step: "do_read_nc L cnt w =
      (if cnt - 1 \<noteq> 0 then do_read_nc L (cnt - 1) w2 else Ret w2)"
    using do_read_nc_step [OF r] by (simp add: w2_def)
  show ?case
  proof (cases "cnt - 1 = 0")
    case True
    then have "length [c] = unat cnt" using u Suc.hyps(2) by simp
    moreover have "do_read_nc L cnt w = Ret w2" using step True by simp
    ultimately show ?thesis using t2 by (intro exI conjI)
  next
    case False
    have "unat (cnt - 1) \<le> buffered (dev w2)"
      using b2 Suc.prems(2) u Suc.hyps(2) by simp
    from Suc.hyps(1) [OF u [symmetric] False this]
    obtain w' bs where run: "do_read_nc L (cnt - 1) w2 = Ret w'" and len: "length bs = unat (cnt - 1)"
      and tr: "trace w' = trace w2 @ forwarded bs" by (elim exE conjE)
    have "do_read_nc L cnt w = Ret w'" using step False run by simp
    moreover have "length (c # bs) = unat cnt" using len u Suc.hyps(2) by simp
    moreover have "trace w' = trace w @ forwarded (c # bs)"
      using tr t2 by (simp add: forwarded_def)
    ultimately show ?thesis by (intro exI conjI)
  qed
qed

lemma loop_nc_counted:
  assumes L: "rx_contract L buffered"
  shows "\<exists>w' t. loop_nc L n w = Stop OutOfFuel w' \<and> trace w' = trace w @ t \<and> counted 0 t"
proof (induction n arbitrary: w)
  case 0
  show ?case by simp
next
  case (Suc n)
  obtain cnt w1 where a: "available L w = (cnt, w1)" by (cases "available L w")
  then have t1: "trace w1 = trace w @ [Available cnt]" using trace_available [of L w] by simp
  show ?case
  proof (cases "cnt = 0")
    case True
    from Suc.IH [of w1] obtain w' t where
      "loop_nc L n w1 = Stop OutOfFuel w'" "trace w' = trace w1 @ t" "counted 0 t" by auto
    then show ?thesis using a True t1
      by (auto intro!: exI [of _ "Available cnt # t"])
  next
    case False
    have "cnt = fst (SoftSerial_available L (dev w))"
      and "dev w1 = snd (SoftSerial_available L (dev w))"
      using a by (auto simp: available_def split: prod.splits)
    then have "unat cnt \<le> buffered (dev w1)"
      using contract_available [OF L, of "dev w"] by simp
    with do_read_nc_counted [OF L False, of w1] obtain w2 bs where
      d: "do_read_nc L cnt w1 = Ret w2" "length bs = unat cnt" "trace w2 = trace w1 @ forwarded bs"
      by auto
    from Suc.IH [of w2] obtain w' t where
      l: "loop_nc L n w2 = Stop OutOfFuel w'" "trace w' = trace w2 @ t" "counted 0 t" by auto
    have "counted 0 (Available cnt # forwarded bs @ t)"
      using d(2) l(3) by (simp add: counted_forwarded)
    then show ?thesis using a False d l t1
      by (auto intro!: exI [of _ "Available cnt # forwarded bs @ t"])
  qed
qed

text \<open>
  C3. With a library that keeps \<open>rx_contract\<close>, the variant of \<open>loop\<close> that reads
  without checking never reads from an empty queue: however long it runs it is only
  ever stopped by the fuel. It takes the count, does nothing when the count is zero,
  and otherwise reads and transmits exactly as many bytes as were counted.
\<close>

theorem loop_nc_reads_what_was_counted:
  "rx_contract L buffered \<Longrightarrow>
     (\<exists>w'. loop_nc L n w = Stop OutOfFuel w') \<and>
     counted 0 (trace_of (loop_nc L n (w\<lparr>trace := []\<rparr>)))"
  using loop_nc_counted [of L buffered n w] loop_nc_counted [of L buffered n "w\<lparr>trace := []\<rparr>"]
  by (auto simp: trace_of_def)

lemma deliver_length: "length (rxq s) \<le> length (rxq (deliver s))"
  by (simp add: deliver_def split: list.split)

lemma uart_rx_contract: "rx_contract uart_lib (\<lambda>s. length (rxq (deliver s)))"
  unfolding rx_contract_def
proof (intro conjI allI impI)
  fix s
  show "unat (fst (SoftSerial_available uart_lib s))
      \<le> length (rxq (deliver (snd (SoftSerial_available uart_lib s))))"
    using deliver_length [of "deliver s"]
    by (simp add: uart_lib_def Let_def unat_of_nat)
next
  fix s
  show "SoftSerial_read_nc uart_lib s = None \<longleftrightarrow> length (rxq (deliver s)) = 0"
    by (simp add: uart_lib_def Let_def split: list.split)
next
  fix s c s'
  assume "SoftSerial_read_nc uart_lib s = Some (c, s')"
  then obtain q where q: "rxq (deliver s) = c # q" and s': "s' = (deliver s)\<lparr>rxq := q\<rparr>"
    by (auto simp: uart_lib_def Let_def split: list.splits)
  show "length (rxq (deliver s)) - 1 \<le> length (rxq (deliver s'))"
    using deliver_length [of s'] q s' by simp
next
  fix b s
  show "length (rxq (deliver s)) \<le> length (rxq (deliver (snd (SoftSerial_xmit uart_lib b s))))"
    using deliver_length [of "(deliver s)\<lparr>sent := sent s @ [b]\<rparr>"]
    by (simp add: uart_lib_def)
qed

theorem loop_nc_run:
  "rx_contract uart_lib (\<lambda>s. length (rxq (deliver s))) \<and>
   trace_of (loop_nc uart_lib (Suc (Suc 0)) (power_up (uart0 [[0x61, 0x62]]) [])) =
     [Available 2, ReadNc 0x61, Xmit 0x61, ReadNc 0x62, Xmit 0x62, Available 0] \<and>
   counted 0 [Available 2, ReadNc 0x61, Xmit 0x61, ReadNc 0x62, Xmit 0x62, Available 0]"
  using loop_nc_reads_what_was_counted [OF uart_rx_contract, of "Suc (Suc 0)"
      "power_up (uart0 [[0x61, 0x62]]) []"] uart_rx_contract
  by (simp add: run_simps available_def read_nc_def do_read_nc.simps)


section \<open>Set\_DCO\<close>

lemma RSEL_mod: "RSEL x = unat x mod 16"
proof -
  have "x AND 0x0F = take_bit 4 x"
    by (simp add: take_bit_eq_mask mask_eq_exp_minus_1)
  then show ?thesis
    by (simp add: RSEL_def take_bit_eq_mod unat_mod)
qed

lemma RSEL_zero: "x AND 0x0F = 0 \<longleftrightarrow> RSEL x = 0"
  by (simp add: RSEL_def unat_eq_0)

lemma RSEL_max: "x AND 0x0F = 0x0F \<longleftrightarrow> RSEL x = 15"
proof -
  have "x AND 0x0F = 0x0F \<longleftrightarrow> unat (x AND 0x0F) = unat (0x0F :: u8)"
    by (simp only: word_unat_eq_iff)
  then show ?thesis by (simp add: RSEL_def)
qed

lemma upper_div: "unat (drop_bit 4 (x::u8)) = unat x div 16"
  by (simp add: drop_bit_eq_div unat_div)

lemma unat_byte_less: "unat (x::u8) < 256"
  using unsigned_less [of x, where 'a = nat] by simp


lemma nibble_pred:
  assumes "(n::nat) mod 16 \<noteq> 0"
  shows "(n - 1) mod 16 = n mod 16 - 1" and "(n - 1) div 16 = n div 16"
proof -
  define q r where "q = n div 16" and "r = n mod 16"
  have n: "n = 16 * q + r"
    by (simp add: q_def r_def)
  have "r \<noteq> 0" using assms by (simp add: r_def)
  then obtain r' where r': "r = Suc r'" by (cases r) simp_all
  have "r < 16" by (simp add: r_def)
  then have less: "r' < 16" using r' by simp
  have n1: "n - 1 = 16 * q + r'" using n r' by simp
  have "(n - 1) mod 16 = (16 * q + r') mod 16" by (simp only: n1)
  also have "\<dots> = r'" using less by simp
  also have "\<dots> = r - 1" using r' by simp
  finally show "(n - 1) mod 16 = n mod 16 - 1" by (simp only: r_def)
  have "(n - 1) div 16 = (16 * q + r') div 16" by (simp only: n1)
  also have "\<dots> = q" using less by simp
  finally show "(n - 1) div 16 = n div 16" by (simp only: q_def)
qed

lemma nibble_succ:
  assumes "(n::nat) mod 16 \<noteq> 15"
  shows "(n + 1) mod 16 = n mod 16 + 1" and "(n + 1) div 16 = n div 16"
proof -
  define q r where "q = n div 16" and "r = n mod 16"
  have n: "n = 16 * q + r"
    by (simp add: q_def r_def)
  have "r \<noteq> 15" using assms by (simp add: r_def)
  moreover have "r < 16" by (simp add: r_def)
  ultimately have less: "r + 1 < 16" by linarith
  have n1: "n + 1 = 16 * q + (r + 1)" using n by simp
  have "(n + 1) mod 16 = (16 * q + (r + 1)) mod 16" by (simp only: n1)
  also have "\<dots> = r + 1" using less by simp
  finally show "(n + 1) mod 16 = n mod 16 + 1" by (simp only: r_def)
  have "(n + 1) div 16 = (16 * q + (r + 1)) div 16" by (simp only: n1)
  also have "\<dots> = q" using less by simp
  finally show "(n + 1) div 16 = n div 16" by (simp only: q_def)
qed

lemma byte_succ_less:
  assumes "(n::nat) mod 16 \<noteq> 15" and "n < 256"
  shows "n + 1 < 256"
proof -
  have "n \<noteq> 255" using assms(1) by (cases "n = 255") simp_all
  with assms(2) show ?thesis by linarith
qed

lemma rsel_dec:
  assumes "RSEL x \<noteq> 0"
  shows "RSEL (x - 1) = RSEL x - 1" and "drop_bit 4 (x - 1) = drop_bit 4 x"
proof -
  from assms have m: "unat x mod 16 \<noteq> 0" by (simp add: RSEL_mod)
  then have "x \<noteq> 0" by (cases "x = 0") simp_all
  then have u: "unat (x - 1) = unat x - 1" by (simp add: unat_minus_one)
  show "RSEL (x - 1) = RSEL x - 1"
    using nibble_pred(1) [OF m] by (simp only: RSEL_mod u)
  have "unat (drop_bit 4 (x - 1)) = unat (drop_bit 4 x)"
    using nibble_pred(2) [OF m] by (simp only: upper_div u)
  then show "drop_bit 4 (x - 1) = drop_bit 4 x"
    by (simp only: word_unat_eq_iff)
qed

lemma rsel_inc:
  assumes "RSEL x \<noteq> 15"
  shows "RSEL (x + 1) = RSEL x + 1" and "drop_bit 4 (x + 1) = drop_bit 4 x"
proof -
  from assms have m: "unat x mod 16 \<noteq> 15" by (simp add: RSEL_mod)
  have "unat x + 1 < 256"
    using m unat_byte_less [of x] by (rule byte_succ_less)
  then have u: "unat (x + 1) = unat x + 1"
    by (simp add: unat_word_ariths)
  show "RSEL (x + 1) = RSEL x + 1"
    using nibble_succ(1) [OF m] by (simp only: RSEL_mod u)
  have "unat (drop_bit 4 (x + 1)) = unat (drop_bit 4 x)"
    using nibble_succ(2) [OF m] by (simp only: upper_div u)
  then show "drop_bit 4 (x + 1) = drop_bit 4 x"
    by (simp only: word_unat_eq_iff)
qed

lemma RSEL_less: "RSEL x < 16"
  by (simp add: RSEL_mod)

lemma slow_down_rsel:
  "(BCSCTL1 (slow_down w) = BCSCTL1 w \<or>
      DCOCTL (slow_down w) = 0xFF \<and> RSEL (BCSCTL1 w) \<noteq> 0 \<and>
      RSEL (BCSCTL1 (slow_down w)) = RSEL (BCSCTL1 w) - 1) \<and>
   drop_bit 4 (BCSCTL1 (slow_down w)) = drop_bit 4 (BCSCTL1 w)"
  by (simp add: slow_down_def Let_def RSEL_zero rsel_dec)

lemma speed_up_rsel:
  "(BCSCTL1 (speed_up w) = BCSCTL1 w \<or>
      DCOCTL (speed_up w) = 0x00 \<and> RSEL (BCSCTL1 w) < 15 \<and>
      RSEL (BCSCTL1 (speed_up w)) = RSEL (BCSCTL1 w) + 1) \<and>
   drop_bit 4 (BCSCTL1 (speed_up w)) = drop_bit 4 (BCSCTL1 w)"
  using RSEL_less [of "BCSCTL1 w"]
  by (simp add: speed_up_def Let_def RSEL_max rsel_inc)

lemma slow_down_frame:
  "captures (slow_down w) = captures w" "trace (slow_down w) = trace w"
  "dev (slow_down w) = dev w" "GIE (slow_down w) = GIE w"
  by (simp_all add: slow_down_def Let_def)

lemma speed_up_frame:
  "captures (speed_up w) = captures w" "trace (speed_up w) = trace w"
  "dev (speed_up w) = dev w" "GIE (speed_up w) = GIE w"
  by (simp_all add: speed_up_def Let_def)

lemma Set_DCO_loop_Nil:
  "captures w = [] \<Longrightarrow> Set_DCO_loop Delta Old w = Stop OutOfFuel w"
  by (subst Set_DCO_loop.simps) simp

lemma Set_DCO_loop_Cons:
  "captures w = (c1, c2) # cs \<Longrightarrow>
     Set_DCO_loop Delta Old w =
       (let w2 = w\<lparr>captures := cs, TACCTL0 := (TACCTL0 w OR CCIFG) AND NOT CCIFG\<rparr>
        in if Delta = c1 - Old then Ret w2
           else if Delta < c1 - Old then Set_DCO_loop Delta c2 (slow_down w2)
           else Set_DCO_loop Delta c2 (speed_up w2))"
  by (subst Set_DCO_loop.simps) (simp add: Let_def)

lemma Set_DCO_loop_inv:
  "captures w = cs \<Longrightarrow>
     drop_bit 4 (BCSCTL1 (world_of (Set_DCO_loop Delta Old w))) = drop_bit 4 (BCSCTL1 w) \<and>
     trace (world_of (Set_DCO_loop Delta Old w)) = trace w \<and>
     dev (world_of (Set_DCO_loop Delta Old w)) = dev w \<and>
     GIE (world_of (Set_DCO_loop Delta Old w)) = GIE w \<and>
     (returned (Set_DCO_loop Delta Old w) \<longleftrightarrow> Delta \<in> set (differences Old cs))"
proof (induction cs arbitrary: Old w)
  case Nil
  then show ?case by (simp add: Set_DCO_loop_Nil)
next
  case (Cons p cs)
  obtain c1 c2 where p: "p = (c1, c2)" by (cases p)
  define w2 where "w2 = w\<lparr>captures := cs, TACCTL0 := (TACCTL0 w OR CCIFG) AND NOT CCIFG\<rparr>"
  have step: "Set_DCO_loop Delta Old w =
       (if Delta = c1 - Old then Ret w2
        else if Delta < c1 - Old then Set_DCO_loop Delta c2 (slow_down w2)
        else Set_DCO_loop Delta c2 (speed_up w2))"
    using Set_DCO_loop_Cons [of w c1 c2 cs Delta Old] Cons.prems p by (simp add: w2_def)
  have w2: "BCSCTL1 w2 = BCSCTL1 w" "trace w2 = trace w" "dev w2 = dev w" "GIE w2 = GIE w"
    "captures w2 = cs"
    by (simp_all add: w2_def)
  consider "Delta = c1 - Old" | "Delta \<noteq> c1 - Old" "Delta < c1 - Old"
    | "Delta \<noteq> c1 - Old" "\<not> Delta < c1 - Old" by blast
  then show ?case
  proof cases
    case 1
    then show ?thesis using step w2 p by simp
  next
    case 2
    have "captures (slow_down w2) = cs" using w2 by (simp add: slow_down_frame)
    from Cons.IH [OF this, of c2] show ?thesis
      using step 2 w2 p slow_down_rsel [of w2] by (simp add: slow_down_frame) 
  next
    case 3
    have "captures (speed_up w2) = cs" using w2 by (simp add: speed_up_frame)
    from Cons.IH [OF this, of c2] show ?thesis
      using step 3 w2 p speed_up_rsel [of w2] by (simp add: speed_up_frame) 
  qed
qed








section \<open>setup and main\<close>

lemma c_setup_parts:
  "c_setup cfg L w = and_then (clock_part cfg w) (\<lambda>w7. serial_part L w7)"
  by (simp add: c_setup_def clock_part_def serial_part_def Let_def)

lemma Set_DCO_inv:
  "trace (world_of (Set_DCO Delta w)) = trace w \<and>
   (returned (Set_DCO Delta w) \<longleftrightarrow> Delta \<in> set (differences 0 (captures w)))"
proof -
  define w3 where "w3 = w\<lparr>BCSCTL1 := BCSCTL1 w OR DIVA_3, TACCTL0 := CM_1 OR CCIS_1 OR CAP,
    TACTL := TASSEL_2 OR MC_2 OR TACLR\<rparr>"
  have c: "captures w3 = captures w" and t: "trace w3 = trace w" by (simp_all add: w3_def)
  have S: "Set_DCO Delta w = and_then (Set_DCO_loop Delta 0 w3)
           (\<lambda>w4. Ret (w4\<lparr>TACCTL0 := 0, TACTL := 0, BCSCTL1 := BCSCTL1 w4 AND NOT DIVA_3\<rparr>))"
    by (simp add: Set_DCO_def Let_def w3_def)
  from Set_DCO_loop_inv [OF c, of Delta 0]
  have i: "trace (world_of (Set_DCO_loop Delta 0 w3)) = trace w"
    "returned (Set_DCO_loop Delta 0 w3) \<longleftrightarrow> Delta \<in> set (differences 0 (captures w))"
    using t by simp_all
  show ?thesis
    using i by (cases "Set_DCO_loop Delta 0 w3") (simp_all add: S)
qed

lemma clock_part_inv:
  "trace (world_of (clock_part cfg w)) = trace w \<and>
   (returned (clock_part cfg w) \<longleftrightarrow> \<not> stuck cfg w)"
proof -
  define w6 where "w6 = w\<lparr>WDTCTL := WDTPW + WDTHOLD, P1DIR := (P1DIR w OR BIT0) OR BIT4,
    P1SEL := (P1SEL w OR BIT0) OR BIT4, BCSCTL3 := (BCSCTL3 w AND NOT XCAP_3) OR XCAP_0\<rparr>"
  have w6: "trace w6 = trace w" "captures w6 = captures w"
    by (simp_all add: w6_def)
  have "clock_part cfg w =
      (if CALIBRATE_DCO cfg then Set_DCO (of_nat (F_CPU cfg div 4096)) w6
       else Ret (w6\<lparr>DCOCTL := 0x00, BCSCTL1 := 0x8F, DCOCTL := 0x7E\<rparr>))"
    by (simp add: clock_part_def Let_def w6_def)
  then show ?thesis
    using Set_DCO_inv [of "of_nat (F_CPU cfg div 4096)" w6] w6
    by (simp add: stuck_def)
qed

lemma trace_xmits: "trace (xmits L bs w) = trace w @ map Xmit bs"
  by (induction bs arbitrary: w) (simp_all add: xmits_def trace_xmit)

lemma print_bytes:
  "0 \<notin> set cs \<Longrightarrow> print L (c # cs @ 0 # rest) w = Ret (xmits L (c # cs) w)"
proof (induction cs arbitrary: c w)
  case Nil
  then show ?case by (simp add: xmits_def)
next
  case (Cons d ds)
  then have "d \<noteq> 0" and "0 \<notin> set ds" by auto
  then show ?case
    using Cons.IH [of d "xmit L c w"] by (simp add: xmits_def)
qed

lemma print_cstr:
  "0 \<notin> set (map of_char s :: u8 list) \<Longrightarrow>
     print L (cstr (c # s)) w = Ret (xmits L (map of_char (c # s)) w)"
  using print_bytes [of "map of_char s" L "of_char c" "[]" w] by (simp add: cstr_def)

lemma trace_print_hexb:
  "\<exists>h l. trace (print_hexb L c w) = trace w @ [Xmit h, Xmit l]"
  by (simp add: print_hexb_def trace_xmit)

lemma serial_part_trace:
  "\<exists>w' bs. serial_part L w = Ret w' \<and>
      trace w' = trace w @ Init # EnableInterrupt # Xmit 0x0D # map Xmit bs"
proof -
  define w9 where "w9 = enable_interrupt (init L w)"
  have t9: "trace w9 = trace w @ [Init, EnableInterrupt]"
    by (simp add: w9_def enable_interrupt_def init_def)
  define b1 :: "u8 list"
    where "b1 = map of_char (CHR 0x0A # ''>>Calibrated DCO values are:'' @ crlf)"
  define w10 where "w10 = xmits L (0x0D # b1) w9"
  have p1: "print L (cstr (crlf @ ''>>Calibrated DCO values are:'' @ crlf)) w9 = Ret w10"
    using print_cstr [of "CHR 0x0A # ''>>Calibrated DCO values are:'' @ crlf" L "CHR 0x0D" w9]
    by (simp add: w10_def b1_def crlf_def)
  define b2 :: "u8 list" where "b2 = map of_char ''BCSCTL1= 0x''"
  define w11 where "w11 = xmits L b2 w10"
  have p2: "print L (cstr ''BCSCTL1= 0x'') w10 = Ret w11"
    unfolding w11_def b2_def by (rule print_cstr) simp
  define w11' where "w11' = print_hexb L (BCSCTL1 w11) w11"
  obtain h1 l1 where th1: "trace w11' = trace w11 @ [Xmit h1, Xmit l1]"
    using trace_print_hexb [of L "BCSCTL1 w11" w11] by (auto simp: w11'_def)
  define b3 :: "u8 list" where "b3 = map of_char crlf"
  define w12 where "w12 = xmits L b3 w11'"
  have p3: "print L (cstr crlf) w11' = Ret w12"
    unfolding w12_def b3_def crlf_def by (rule print_cstr) simp
  define b4 :: "u8 list" where "b4 = map of_char ''DCOCTL = 0x''"
  define w13 where "w13 = xmits L b4 w12"
  have p4: "print L (cstr ''DCOCTL = 0x'') w12 = Ret w13"
    unfolding w13_def b4_def by (rule print_cstr) simp
  define w13' where "w13' = print_hexb L (DCOCTL w13) w13"
  obtain h2 l2 where th2: "trace w13' = trace w13 @ [Xmit h2, Xmit l2]"
    using trace_print_hexb [of L "DCOCTL w13" w13] by (auto simp: w13'_def)
  define w14 where "w14 = xmits L b3 w13'"
  have p5: "print L (cstr crlf) w13' = Ret w14"
    unfolding w14_def b3_def crlf_def by (rule print_cstr) simp
  have run: "serial_part L w = Ret w14"
    using p1 p2 p3 p4 p5
    by (simp add: serial_part_def Let_def w9_def [symmetric] w11'_def [symmetric]
        w13'_def [symmetric])
  have "trace w14 = trace w @ Init # EnableInterrupt # Xmit 0x0D #
      map Xmit (b1 @ b2 @ [h1, l1] @ b3 @ b4 @ [h2, l2] @ b3)"
    by (simp add: w14_def w13_def w12_def w11_def w10_def trace_xmits th1 th2 t9)
  with run show ?thesis by (intro exI conjI)
qed

lemma extends_refl: "extends w (Ret w)" "extends w (Stop x w)"
  by (simp_all add: extends_def trace_of_def)

lemma extends_trans:
  "extends w (Ret w1) \<Longrightarrow> extends w1 r \<Longrightarrow> extends w r"
  by (auto simp: extends_def trace_of_def)

lemma extends_step:
  "trace w1 = trace w @ [e] \<Longrightarrow> after_setup e \<Longrightarrow> extends w1 r \<Longrightarrow> extends w r"
  by (auto simp: extends_def trace_of_def)

lemma drain_extends: "extends w (drain L n w)"
proof (induction n arbitrary: w)
  case 0
  show ?case by (simp add: extends_refl)
next
  case (Suc n)
  obtain c w1 where r: "read L w = (c, w1)" by (cases "read L w")
  then have t1: "trace w1 = trace w @ [Read c]" using trace_read [of L w] by simp
  show ?case
  proof (cases "c = - 1")
    case True
    have "extends w (Ret w1)"
      by (rule extends_step [OF t1]) (simp, rule extends_refl)
    then show ?thesis using r True by simp
  next
    case False
    let ?w2 = "xmit L (ucast c) w1"
    have "extends w1 (drain L n ?w2)"
      by (rule extends_step [OF trace_xmit]) (simp, rule Suc.IH)
    then have "extends w (drain L n ?w2)"
      by (rule extends_step [OF t1, rotated]) simp
    then show ?thesis using r False by simp
  qed
qed

lemma and_then_extends:
  "extends w r \<Longrightarrow> (\<And>w1. extends w1 (f w1)) \<Longrightarrow> extends w (and_then r f)"
  by (cases r) (auto intro: extends_trans)

lemma loop_extends: "extends w (loop L n w)"
proof (induction n arbitrary: w)
  case 0
  show ?case by (simp add: extends_refl)
next
  case (Suc n)
  obtain e w1 where r: "empty L w = (e, w1)" by (cases "empty L w")
  then have t1: "trace w1 = trace w @ [Empty e]" using trace_empty [of L w] by simp
  have "extends w1 (and_then (drain L n w1) (\<lambda>w2. loop L n w2))"
    by (rule and_then_extends [OF drain_extends Suc.IH])
  moreover have "extends w1 (loop L n w1)" by (rule Suc.IH)
  ultimately have "extends w1 (loop L (Suc n) w)" using r by simp
  then show ?case by (rule extends_step [OF t1, rotated]) simp
qed

lemma main_while_extends: "extends w (main_while L n w)"
proof (induction n arbitrary: w)
  case 0
  show ?case by (simp add: extends_refl)
next
  case (Suc n)
  show ?case
    using and_then_extends [OF loop_extends [of w L "Suc n"], of "\<lambda>w1. main_while L n w1"] Suc.IH
    by simp
qed

lemma c_setup_trace:
  "if stuck cfg w then \<not> returned (c_setup cfg L w) \<and> trace_of (c_setup cfg L w) = trace w
   else (\<exists>w' bs. c_setup cfg L w = Ret w' \<and>
          trace w' = trace w @ Init # EnableInterrupt # Xmit 0x0D # map Xmit bs)"
proof (cases "clock_part cfg w")
  case (Ret w7)
  with clock_part_inv [of cfg w] have s: "\<not> stuck cfg w" and t: "trace w7 = trace w"
    by simp_all
  from serial_part_trace [of L w7] t Ret s show ?thesis
    by (simp add: c_setup_parts)
next
  case (Stop x w7)
  with clock_part_inv [of cfg w] have s: "stuck cfg w" and t: "trace w7 = trace w"
    by simp_all
  with Stop show ?thesis
    by (simp add: c_setup_parts trace_of_def)
qed

lemma main_trace:
  "if stuck cfg w then trace_of (main cfg L n w) = trace w
   else (\<exists>rest. trace_of (main cfg L n w) = trace w @ Init # EnableInterrupt # rest \<and>
           list_all after_setup rest)"
proof (cases "stuck cfg w")
  case True
  with c_setup_trace [of cfg w L] show ?thesis
    by (cases "c_setup cfg L w") (simp_all add: main_def trace_of_def)
next
  case False
  with c_setup_trace [of cfg w L] obtain w' bs where
    s: "c_setup cfg L w = Ret w'"
    and t: "trace w' = trace w @ Init # EnableInterrupt # Xmit 0x0D # map Xmit bs"
    by auto
  from main_while_extends [of w' L n] obtain t' where
    m: "trace_of (main_while L n w') = trace w' @ t'" and a: "list_all after_setup t'"
    by (auto simp: extends_def)
  have "list_all after_setup (Xmit 0x0D # map Xmit bs @ t')"
    using a by (auto simp: list_all_iff)
  moreover have "trace_of (main cfg L n w) =
      trace w @ Init # EnableInterrupt # (Xmit 0x0D # map Xmit bs @ t')"
    using s t m by (simp add: main_def)
  ultimately show ?thesis using False by auto
qed

lemma after_setup_set:
  "list_all after_setup t \<Longrightarrow> Init \<notin> set t \<and> EnableInterrupt \<notin> set t"
  by (auto simp: list_all_iff)

text \<open>
  C4, as the code has it. While \<open>setup\<close> is held up in the clock calibration the
  program has made no call at all. In every other execution, however long it runs, the
  first call is \<open>SoftSerial_init\<close>, the second the interrupt enable, and neither
  happens again: the library is initialised once, before any other call into it and
  before interrupts are enabled. Without \<open>CALIBRATE_DCO\<close> no execution is held up.
\<close>

theorem init_once_and_first:
  "if stuck cfg w then trace_of (main cfg L n (w\<lparr>trace := []\<rparr>)) = []
   else (\<exists>rest. trace_of (main cfg L n (w\<lparr>trace := []\<rparr>)) = Init # EnableInterrupt # rest \<and>
           Init \<notin> set rest \<and> EnableInterrupt \<notin> set rest)"
  using main_trace [of cfg "w\<lparr>trace := []\<rparr>" L n] after_setup_set
  by (auto simp: stuck_def)

theorem init_once_and_first_run:
  "\<not> stuck no_calibration (power_up (uart0 []) []) \<and>
   \<not> stuck calibration (power_up (uart0 []) [(10, 10), (3916, 3916)]) \<and>
   take 2 (trace_of (main no_calibration uart_lib 2 (power_up (uart0 []) []))) =
     [Init, EnableInterrupt] \<and>
   length (filter (\<lambda>e. e = Init) (trace_of (main no_calibration uart_lib 2 (power_up (uart0 []) [])))) = 1 \<and>
   length (filter (\<lambda>e. e = Init)
     (trace_of (main calibration uart_lib 2 (power_up (uart0 []) [(10, 10), (3916, 3916)])))) = 1"
proof -
  have 1: "\<not> stuck no_calibration (power_up (uart0 []) [])"
    by (simp add: stuck_def no_calibration_def)
  have 2: "\<not> stuck calibration (power_up (uart0 []) [(10, 10), (3916, 3916)])"
    by (simp add: stuck_def calibration_def power_up_def)
  have e: "power_up d c\<lparr>trace := []\<rparr> = power_up d c" for d :: uart and c
    by (simp add: power_up_def)
  show ?thesis
    using 1 2 init_once_and_first [of no_calibration "power_up (uart0 []) []" uart_lib 2]
      init_once_and_first [of calibration "power_up (uart0 []) [(10, 10), (3916, 3916)]" uart_lib 2]
    by (auto simp: e filter_empty_conv)
qed

text \<open>
  With calibration compiled in and a timer that never captures (no crystal), \<open>setup\<close>
  stays in the busy wait of line 200: it does not return, and the program has called
  nothing, \<open>SoftSerial_init\<close> included, whatever the fuel.
\<close>

theorem calibration_without_capture:
  "\<not> returned (c_setup calibration uart_lib (power_up (uart0 []) [])) \<and>
   trace_of (main calibration uart_lib 2 (power_up (uart0 []) [])) = []"
  by (simp add: main_def c_setup_def Set_DCO_def Set_DCO_loop_Nil calibration_def power_up_def
      trace_of_def Let_def)

lemma with_init_result_calls:
  "init (with_init_result r L) = init L"
  "xmit (with_init_result r L) = xmit L"
  by (simp_all add: fun_eq_iff with_init_result_def init_def xmit_def)

lemma print_with_init_result: "print (with_init_result r L) s w = print L s w"
  by (induction s arbitrary: w) (simp_all add: with_init_result_calls Let_def split: list.split)

lemma print_hexb_with_init_result: "print_hexb (with_init_result r L) c w = print_hexb L c w"
  by (simp add: print_hexb_def with_init_result_calls)

text \<open>
  C5, as the code has it. \<open>setup\<close> calls \<open>SoftSerial_init\<close> as a statement: what the
  call reports makes no difference to anything \<open>setup\<close> does. Once past the clock
  setup it initialises, enables interrupts and at once transmits the banner, which
  starts with a carriage return, and returns.
\<close>

theorem setup_ignores_init_result:
  "c_setup cfg (with_init_result r L) w = c_setup cfg L w \<and>
   (if stuck cfg w then trace_of (c_setup cfg L (w\<lparr>trace := []\<rparr>)) = []
    else (\<exists>bs. returned (c_setup cfg L (w\<lparr>trace := []\<rparr>)) \<and>
            trace_of (c_setup cfg L (w\<lparr>trace := []\<rparr>)) =
              Init # EnableInterrupt # Xmit 0x0D # map Xmit bs))"
proof -
  let ?w = "w\<lparr>trace := []\<rparr>"
  have eq: "c_setup cfg (with_init_result r L) w = c_setup cfg L w"
    by (simp add: c_setup_def with_init_result_calls print_with_init_result
        print_hexb_with_init_result)
  have st: "stuck cfg ?w = stuck cfg w"
    by (simp add: stuck_def)
  show ?thesis
  proof (cases "stuck cfg w")
    case True
    with c_setup_trace [of cfg ?w L] st have "trace_of (c_setup cfg L ?w) = []"
      by simp
    with eq True show ?thesis by simp
  next
    case False
    with c_setup_trace [of cfg ?w L] st obtain w' bs where
      "c_setup cfg L ?w = Ret w'"
      "trace w' = Init # EnableInterrupt # Xmit 0x0D # map Xmit bs"
      by auto
    then have "returned (c_setup cfg L ?w) \<and>
        trace_of (c_setup cfg L ?w) = Init # EnableInterrupt # Xmit 0x0D # map Xmit bs"
      by (simp add: trace_of_def)
    then have "\<exists>bs. returned (c_setup cfg L ?w) \<and>
        trace_of (c_setup cfg L ?w) = Init # EnableInterrupt # Xmit 0x0D # map Xmit bs" ..
    with eq False show ?thesis by simp
  qed
qed

text \<open>
  On a library whose \<open>SoftSerial_init\<close> reports \<open>UnsupportedBaudRate\<close>, \<open>setup\<close>
  goes on all the same: it enables interrupts, transmits the whole banner and returns.
\<close>

theorem setup_transmits_after_failed_init:
  "fst (SoftSerial_init uart_lib bad_baud) = UnsupportedBaudRate \<and>
   returned (c_setup no_calibration uart_lib (power_up bad_baud [])) \<and>
   trace_of (c_setup no_calibration uart_lib (power_up bad_baud [])) =
     Init # EnableInterrupt #
     map (\<lambda>c. Xmit (of_char c))
       (crlf @ ''>>Calibrated DCO values are:'' @ crlf @
        ''BCSCTL1= 0x8F'' @ crlf @ ''DCOCTL = 0x7E'' @ crlf)"
  by (simp add: c_setup_def no_calibration_def power_up_def cstr_def crlf_def print_hexb_def
      hextbl_def init_def enable_interrupt_def xmit_def trace_of_def Let_def drop_bit_eq_div
      uart_lib_def bad_baud_def uart0_def)

theorem setup_ignores_init_result_run:
  "\<not> stuck no_calibration (power_up bad_baud []) \<and>
   c_setup no_calibration (with_init_result (\<lambda>s. Configured) uart_lib) (power_up bad_baud []) =
     c_setup no_calibration uart_lib (power_up bad_baud []) \<and>
   fst (SoftSerial_init (with_init_result (\<lambda>s. Configured) uart_lib) bad_baud) = Configured \<and>
   fst (SoftSerial_init uart_lib bad_baud) = UnsupportedBaudRate"
  using setup_ignores_init_result [of no_calibration "\<lambda>s. Configured" uart_lib "power_up bad_baud []"]
  by (simp add: stuck_def no_calibration_def with_init_result_def uart_lib_def bad_baud_def uart0_def)

section \<open>The output paths\<close>







end
